theory Spec2Isabelle
  imports Main
begin

section \<open>Local alignment of two protein sequences (project4.hh)\<close>

text \<open>
  The header defines \<open>BlosumPenaltyArray\<close>, a penalty table backed by
  \<open>std::map<char, std::map<char, int>>\<close>, and \<open>local_alignment\<close>, which fills a
  score matrix \<open>d\<close> and a direction matrix \<open>b\<close>, searches the optimum and walks the
  directions back.

  C++ leaves several things the function does undefined: an access outside an array, the
  use of a pointer or a cell that was never written, signed overflow. The model makes each
  of them a \<open>fault\<close>, so that a run is either a fault or a result.
\<close>

subsection \<open>Faults and checked accesses\<close>

datatype fault = OutOfBounds | UninitRead | SignedOverflow

text \<open>
  \<open>new T*[n+1]\<close> and \<open>new T[m+1]\<close> give arrays whose elements are not initialised:
  a row pointer that was never assigned is \<open>None\<close>, and so is a cell that was never
  written. Each row is an allocation of its own, so rows do not alias.
\<close>

type_synonym 'a matrix = "'a option list option list"

definition rd :: "'a matrix \<Rightarrow> int \<Rightarrow> int \<Rightarrow> fault + 'a" where
  "rd a i j =
     (if i < 0 \<or> int (length a) \<le> i then Inl OutOfBounds
      else case a ! nat i of
        None \<Rightarrow> Inl UninitRead
      | Some r \<Rightarrow>
          if j < 0 \<or> int (length r) \<le> j then Inl OutOfBounds
          else (case r ! nat j of None \<Rightarrow> Inl UninitRead | Some v \<Rightarrow> Inr v))"

definition wr :: "'a matrix \<Rightarrow> int \<Rightarrow> int \<Rightarrow> 'a \<Rightarrow> fault + 'a matrix" where
  "wr a i j v =
     (if i < 0 \<or> int (length a) \<le> i then Inl OutOfBounds
      else case a ! nat i of
        None \<Rightarrow> Inl UninitRead
      | Some r \<Rightarrow>
          if j < 0 \<or> int (length r) \<le> j then Inl OutOfBounds
          else Inr (a[nat i := Some (r[nat j := Some v])]))"

text \<open>
  \<open>std::string::operator[]\<close>: a position below the size gives the character, the
  position equal to the size gives the terminating null character, anything else is
  undefined (a negative \<open>int\<close> converts to a huge \<open>size_t\<close>).
\<close>

definition str_at :: "string \<Rightarrow> int \<Rightarrow> fault + char" where
  "str_at s k =
     (if 0 \<le> k \<and> k < int (length s) then Inr (s ! nat k)
      else if k = int (length s) then Inr (CHR 0x00)
      else Inl OutOfBounds)"

text \<open>Addition of two \<open>int\<close> (32 bits): undefined when the sum does not fit.\<close>

definition add_int :: "int \<Rightarrow> int \<Rightarrow> fault + int" where
  "add_int x y =
     (if - 2147483648 \<le> x + y \<and> x + y \<le> 2147483647 then Inr (x + y)
      else Inl SignedOverflow)"

subsection \<open>BlosumPenaltyArray\<close>

text \<open>
  \<open>_penaltyMap\<close> is a map from a character to a map from a character to an \<open>int\<close>.
  \<open>operator[]\<close> of \<open>std::map\<close> inserts a value-initialised element when the key is
  absent (an empty inner map, the integer 0) and returns a reference to it. So
  \<open>get_penalty\<close>, which reads \<open>_penaltyMap[c1][c2]\<close>, returns the value and the table as
  the two lookups leave it.
\<close>

type_synonym penalty_map = "char \<rightharpoonup> (char \<rightharpoonup> int)"

definition inner_map :: "penalty_map \<Rightarrow> char \<Rightarrow> (char \<rightharpoonup> int)" where
  "inner_map pm c1 = (case pm c1 of None \<Rightarrow> Map.empty | Some r \<Rightarrow> r)"

definition penalty_of :: "penalty_map \<Rightarrow> char \<Rightarrow> char \<Rightarrow> int" where
  "penalty_of pm c1 c2 = (case inner_map pm c1 c2 of None \<Rightarrow> 0 | Some v \<Rightarrow> v)"

definition get_penalty :: "char \<Rightarrow> char \<Rightarrow> penalty_map \<Rightarrow> int \<times> penalty_map" where
  "get_penalty c1 c2 pm =
     (penalty_of pm c1 c2, pm(c1 \<mapsto> (inner_map pm c1)(c2 \<mapsto> penalty_of pm c1 c2)))"

definition set_penalty :: "char \<Rightarrow> char \<Rightarrow> int \<Rightarrow> penalty_map \<Rightarrow> penalty_map" where
  "set_penalty c1 c2 penalty pm = pm(c1 \<mapsto> (inner_map pm c1)(c2 \<mapsto> penalty))"

text \<open>The pair \<open>(c1, c2)\<close> has an entry in the table.\<close>

definition has_entry :: "penalty_map \<Rightarrow> char \<Rightarrow> char \<Rightarrow> bool" where
  "has_entry pm c1 c2 = (case pm c1 of None \<Rightarrow> False | Some r \<Rightarrow> r c2 \<noteq> None)"

subsection \<open>local\_alignment, loop by loop\<close>

text \<open>
  Lines 213 to 217:
  \<^verbatim>\<open>for( int i; i < n+2; i++) { d[i] = new int[m+1]; b[i] = new char[m+1]; }\<close>
  The counter has no initialiser; the value it starts from is the parameter \<open>i\<close> of the
  first call. \<open>d\<close> and \<open>b\<close> have \<open>n+1\<close> elements.
\<close>

definition set_row :: "'a matrix \<Rightarrow> int \<Rightarrow> int \<Rightarrow> fault + 'a matrix" where
  "set_row a i m =
     (if i < 0 \<or> int (length a) \<le> i then Inl OutOfBounds
      else Inr (a[nat i := Some (replicate (nat (m + 1)) None)]))"

function alloc_loop ::
  "int \<Rightarrow> int \<Rightarrow> int \<Rightarrow> int matrix \<Rightarrow> char matrix \<Rightarrow> fault + (int matrix \<times> char matrix)" where
  "alloc_loop i n m d b =
     (if i < n + 2 then
        (case set_row d i m of
           Inl e \<Rightarrow> Inl e
         | Inr d' \<Rightarrow>
             (case set_row b i m of
                Inl e \<Rightarrow> Inl e
              | Inr b' \<Rightarrow> alloc_loop (i + 1) n m d' b'))
      else Inr (d, b))"
  by pat_completeness auto
termination
  by (relation "measure (\<lambda>(i, n, m, d, b). nat (n + 2 - i))") auto

declare alloc_loop.simps [simp del]

text \<open>
  Lines 218 to 225:
  \<^verbatim>\<open>for (int i = 0; i < n+1; i++) for (int j = 0; j < m+1; i++) { d[i][j] = 0; b[i][j] = '?'; }\<close>
  The inner loop tests \<open>j\<close> and increments \<open>i\<close>, the counter of the outer loop; it hands
  that counter back when it ends.
\<close>

function init_inner ::
  "int \<Rightarrow> int \<Rightarrow> int \<Rightarrow> int matrix \<Rightarrow> char matrix \<Rightarrow> fault + (int \<times> int matrix \<times> char matrix)" where
  "init_inner i j m d b =
     (if j < m + 1 then
        (case wr d i j 0 of
           Inl e \<Rightarrow> Inl e
         | Inr d' \<Rightarrow>
             (case wr b i j (CHR ''?'') of
                Inl e \<Rightarrow> Inl e
              | Inr b' \<Rightarrow> init_inner (i + 1) j m d' b'))
      else Inr (i, d, b))"
  by pat_completeness auto
termination
  by (relation "measure (\<lambda>(i, j, m, d, b). nat (int (length d) - i))")
     (auto simp: wr_def split: if_splits option.splits)

declare init_inner.simps [simp del]

lemma init_inner_counter:
  "init_inner i j m d b = Inr (i', d', b') \<Longrightarrow> i \<le> i'"
proof (induction i j m d b rule: init_inner.induct)
  case (1 i j m d b)
  show ?case
  proof (cases "j < m + 1")
    case True
    with "1.prems" obtain d1 b1 where
      w: "wr d i j 0 = Inr d1" "wr b i j (CHR ''?'') = Inr b1"
      and r: "init_inner (i + 1) j m d1 b1 = Inr (i', d', b')"
      by (auto simp: init_inner.simps [of i j m d b] split: sum.splits)
    from "1.IH" [OF True w r] show ?thesis by simp
  next
    case False
    with "1.prems" show ?thesis by (simp add: init_inner.simps [of i j m d b])
  qed
qed

function init_loop ::
  "int \<Rightarrow> int \<Rightarrow> int \<Rightarrow> int matrix \<Rightarrow> char matrix \<Rightarrow> fault + (int matrix \<times> char matrix)" where
  "init_loop i n m d b =
     (if i < n + 1 then
        (case init_inner i 0 m d b of
           Inl e \<Rightarrow> Inl e
         | Inr (i', d', b') \<Rightarrow> init_loop (i' + 1) n m d' b')
      else Inr (d, b))"
  by pat_completeness auto
termination
  by (relation "measure (\<lambda>(i, n, m, d, b). nat (n + 1 - i))")
     (auto dest: init_inner_counter)

declare init_loop.simps [simp del]

text \<open>
  Lines 230 to 262, the body of the fill loops at the cell \<open>(i, j)\<close>. The three candidates
  are computed in the order the statements stand; each reads a cell of \<open>d\<close>, a character
  of each string and the table (through \<open>get_penalty\<close>, which may insert). The nested
  comparison picks a direction tag and a score; the tag goes to \<open>b[i][j]\<close>, the score to
  \<open>d[i][j]\<close>, and a negative \<open>d[i][j]\<close> is then replaced by 0. C++ does not fix the
  order in which the two operands of a sum are evaluated; here the cell is read first.
\<close>

definition bnd :: "fault + 'a \<Rightarrow> ('a \<Rightarrow> fault + 'b) \<Rightarrow> fault + 'b" where
  "bnd x f = (case x of Inl e \<Rightarrow> Inl e | Inr v \<Rightarrow> f v)"

definition choose_dir :: "int \<Rightarrow> int \<Rightarrow> int \<Rightarrow> char \<times> int" where
  "choose_dir up left diag =
     (if left > up then
        (if left > diag then (CHR ''l'', left) else (CHR ''d'', diag))
      else
        (if up > diag then (CHR ''u'', up) else (CHR ''d'', diag)))"

definition fill_cell ::
  "string \<Rightarrow> string \<Rightarrow> int \<Rightarrow> int \<Rightarrow> int matrix \<Rightarrow> char matrix \<Rightarrow> penalty_map
     \<Rightarrow> fault + (int matrix \<times> char matrix \<times> penalty_map)" where
  "fill_cell string1 string2 i j d b bpa =
     bnd (rd d (i - 1) j) (\<lambda>x1.
     bnd (str_at string1 (i - 1)) (\<lambda>c1.
     case get_penalty c1 (CHR ''*'') bpa of (p1, bpa1) \<Rightarrow>
     bnd (add_int x1 p1) (\<lambda>up.
     bnd (rd d i (j - 1)) (\<lambda>x2.
     bnd (str_at string2 (j - 1)) (\<lambda>c2.
     case get_penalty (CHR ''*'') c2 bpa1 of (p2, bpa2) \<Rightarrow>
     bnd (add_int x2 p2) (\<lambda>left.
     bnd (rd d (i - 1) (j - 1)) (\<lambda>x3.
     bnd (str_at string1 (i - 1)) (\<lambda>c3.
     bnd (str_at string2 (j - 1)) (\<lambda>c4.
     case get_penalty c3 c4 bpa2 of (p3, bpa3) \<Rightarrow>
     bnd (add_int x3 p3) (\<lambda>diag.
     case choose_dir up left diag of (t, v) \<Rightarrow>
     bnd (wr b i j t) (\<lambda>b1.
     bnd (wr d i j v) (\<lambda>d1.
     bnd (rd d1 i j) (\<lambda>w.
     if w < 0 then bnd (wr d1 i j 0) (\<lambda>d2. Inr (d2, b1, bpa3))
     else Inr (d1, b1, bpa3))))))))))))))"

lemma bnd_Inr: "bnd x f = Inr y \<longleftrightarrow> (\<exists>v. x = Inr v \<and> f v = Inr y)"
  by (cases x) (simp_all add: bnd_def)

lemma wr_Inr_length:
  "wr a i j v = Inr a' \<Longrightarrow> length a' = length a \<and> 0 \<le> i \<and> i < int (length a)"
  by (auto simp: wr_def split: if_splits option.splits)

lemma fst_get_penalty: "fst (get_penalty c1 c2 pm) = penalty_of pm c1 c2"
  by (simp add: get_penalty_def)

lemma penalty_of_get_penalty:
  "penalty_of (snd (get_penalty c1 c2 pm)) x y = penalty_of pm x y"
  by (simp add: get_penalty_def penalty_of_def inner_map_def)

lemma wr_wr: "wr a i j v = Inr a1 \<Longrightarrow> wr a1 i j w = wr a i j w"
  by (auto simp: wr_def split: if_splits option.splits)

lemma rd_wr_same: "wr a i j v = Inr a1 \<Longrightarrow> rd a1 i j = Inr v"
  by (auto simp: wr_def rd_def split: if_splits option.splits)

lemma rd_wr_other:
  "wr a i j v = Inr a1 \<Longrightarrow> (i', j') \<noteq> (i, j) \<Longrightarrow> rd a1 i' j' = rd a i' j'"
  by (auto simp: wr_def rd_def nth_list_update split: if_splits option.splits)

lemma add_int_Inr:
  "add_int x y = Inr z \<longleftrightarrow> z = x + y \<and> - 2147483648 \<le> x + y \<and> x + y \<le> 2147483647"
  by (auto simp: add_int_def)

text \<open>The table after the three lookups of one cell.\<close>

definition after_lookups :: "penalty_map \<Rightarrow> char \<Rightarrow> char \<Rightarrow> penalty_map" where
  "after_lookups pm c1 c2 =
     snd (get_penalty c1 c2
       (snd (get_penalty (CHR ''*'') c2 (snd (get_penalty c1 (CHR ''*'') pm)))))"

lemma fill_cell_InrD:
  assumes "fill_cell string1 string2 i j d b bpa = Inr (d', b', bpa')"
  shows "\<exists>x1 x2 x3 c1 c2 up left diag.
           rd d (i - 1) j = Inr x1 \<and> rd d i (j - 1) = Inr x2 \<and>
           rd d (i - 1) (j - 1) = Inr x3 \<and>
           str_at string1 (i - 1) = Inr c1 \<and> str_at string2 (j - 1) = Inr c2 \<and>
           add_int x1 (penalty_of bpa c1 (CHR ''*'')) = Inr up \<and>
           add_int x2 (penalty_of bpa (CHR ''*'') c2) = Inr left \<and>
           add_int x3 (penalty_of bpa c1 c2) = Inr diag \<and>
           wr b i j (fst (choose_dir up left diag)) = Inr b' \<and>
           wr d i j (max (snd (choose_dir up left diag)) 0) = Inr d' \<and>
           bpa' = after_lookups bpa c1 c2"
  using assms
  apply (simp add: fill_cell_def bnd_Inr case_prod_beta fst_get_penalty
      penalty_of_get_penalty after_lookups_def)
  apply (elim exE conjE)
  apply (simp add: rd_wr_same)
  apply (auto simp: wr_wr max_def bnd_Inr split: if_splits)
  done

lemma fill_cell_length:
  assumes "fill_cell string1 string2 i j d b bpa = Inr (d', b', bpa')"
  shows "length d' = length d \<and> length b' = length b \<and> 0 \<le> i \<and> i < int (length d)"
  using fill_cell_InrD [OF assms] by (auto dest: wr_Inr_length)

text \<open>
  Lines 226 to 266:
  \<^verbatim>\<open>for (int i = 1; i < n+1; i++) for (int j = 1; j < m+1; i++) { ... }\<close>
  Here too the inner loop increments \<open>i\<close>.
\<close>

function fill_inner ::
  "string \<Rightarrow> string \<Rightarrow> int \<Rightarrow> int \<Rightarrow> int \<Rightarrow> int matrix \<Rightarrow> char matrix \<Rightarrow> penalty_map
     \<Rightarrow> fault + (int \<times> int matrix \<times> char matrix \<times> penalty_map)" where
  "fill_inner string1 string2 i j m d b bpa =
     (if j < m + 1 then
        (case fill_cell string1 string2 i j d b bpa of
           Inl e \<Rightarrow> Inl e
         | Inr (d', b', bpa') \<Rightarrow> fill_inner string1 string2 (i + 1) j m d' b' bpa')
      else Inr (i, d, b, bpa))"
  by pat_completeness auto
termination
  by (relation "measure (\<lambda>(string1, string2, i, j, m, d, b, bpa). nat (int (length d) - i))")
     (auto dest: fill_cell_length)

declare fill_inner.simps [simp del]

lemma fill_inner_counter:
  "fill_inner string1 string2 i j m d b bpa = Inr (i', d', b', bpa') \<Longrightarrow> i \<le> i'"
proof (induction string1 string2 i j m d b bpa rule: fill_inner.induct)
  case (1 string1 string2 i j m d b bpa)
  show ?case
  proof (cases "j < m + 1")
    case True
    with "1.prems" obtain d1 b1 bpa1 where
      c: "fill_cell string1 string2 i j d b bpa = Inr (d1, b1, bpa1)"
      and r: "fill_inner string1 string2 (i + 1) j m d1 b1 bpa1 = Inr (i', d', b', bpa')"
      by (auto simp: fill_inner.simps [of string1 string2 i j m d b bpa] split: sum.splits)
    from "1.IH" [OF True c _ _ r] show ?thesis by simp
  next
    case False
    with "1.prems" show ?thesis
      by (simp add: fill_inner.simps [of string1 string2 i j m d b bpa])
  qed
qed

function fill_loop ::
  "string \<Rightarrow> string \<Rightarrow> int \<Rightarrow> int \<Rightarrow> int \<Rightarrow> int matrix \<Rightarrow> char matrix \<Rightarrow> penalty_map
     \<Rightarrow> fault + (int matrix \<times> char matrix \<times> penalty_map)" where
  "fill_loop string1 string2 i n m d b bpa =
     (if i < n + 1 then
        (case fill_inner string1 string2 i 1 m d b bpa of
           Inl e \<Rightarrow> Inl e
         | Inr (i', d', b', bpa') \<Rightarrow> fill_loop string1 string2 (i' + 1) n m d' b' bpa')
      else Inr (d, b, bpa))"
  by pat_completeness auto
termination
  by (relation "measure (\<lambda>(string1, string2, i, n, m, d, b, bpa). nat (n + 1 - i))")
     (auto dest: fill_inner_counter)

declare fill_loop.simps [simp del]

text \<open>
  Lines 267 to 276: \<open>best_i\<close> is the last row; the loop over \<open>j\<close> keeps the first largest
  entry of that row that exceeds the running \<open>best_score\<close>.
\<close>

function best_loop ::
  "int matrix \<Rightarrow> int \<Rightarrow> int \<Rightarrow> int \<Rightarrow> int \<Rightarrow> int \<Rightarrow> fault + (int \<times> int)" where
  "best_loop d best_i m j best_score best_j =
     (if j < m + 1 then
        (case rd d best_i j of
           Inl e \<Rightarrow> Inl e
         | Inr v \<Rightarrow>
             if v > best_score then best_loop d best_i m (j + 1) v j
             else best_loop d best_i m (j + 1) best_score best_j)
      else Inr (best_score, best_j))"
  by pat_completeness auto
termination
  by (relation "measure (\<lambda>(d, best_i, m, j, best_score, best_j). nat (m + 1 - j))") auto

declare best_loop.simps [simp del]

text \<open>
  Lines 277 to 305, the walk back. A tag other than the four the loop tests changes
  nothing and leaves \<open>done\<close> false, so the loop does not end: the result \<open>None\<close>.
\<close>

partial_function (option) trace_loop ::
  "string \<Rightarrow> string \<Rightarrow> char matrix \<Rightarrow> int \<Rightarrow> int \<Rightarrow> string \<Rightarrow> string
     \<Rightarrow> (fault + (string \<times> string)) option" where
  "trace_loop string1 string2 b i j matchString1 matchString2 =
     (case rd b i j of
        Inl e \<Rightarrow> Some (Inl e)
      | Inr t \<Rightarrow>
          if t = CHR ''u'' then
            (case str_at string1 (i - 1) of
               Inl e \<Rightarrow> Some (Inl e)
             | Inr c \<Rightarrow>
                 trace_loop string1 string2 b (i - 1) j (matchString1 @ [c]) (matchString2 @ ''*''))
          else if t = CHR ''l'' then
            (case str_at string2 (j - 1) of
               Inl e \<Rightarrow> Some (Inl e)
             | Inr c \<Rightarrow>
                 trace_loop string1 string2 b i (j - 1) (matchString1 @ ''*'') (matchString2 @ [c]))
          else if t = CHR ''d'' then
            (case str_at string1 (i - 1) of
               Inl e \<Rightarrow> Some (Inl e)
             | Inr c1 \<Rightarrow>
                 (case str_at string2 (j - 1) of
                    Inl e \<Rightarrow> Some (Inl e)
                  | Inr c2 \<Rightarrow>
                      trace_loop string1 string2 b (i - 1) (j - 1)
                        (matchString1 @ [c1]) (matchString2 @ [c2])))
          else if t = CHR ''?'' then Some (Inr (matchString1, matchString2))
          else trace_loop string1 string2 b i j matchString1 matchString2)"

text \<open>Lines 306 to 317: each match string is copied back to front.\<close>

function reverse_loop :: "string \<Rightarrow> int \<Rightarrow> string \<Rightarrow> string" where
  "reverse_loop matchString x temp =
     (if x \<ge> 0 then reverse_loop matchString (x - 1) (temp @ [matchString ! nat x]) else temp)"
  by pat_completeness auto
termination
  by (relation "measure (\<lambda>(matchString, x, temp). nat (x + 1))") auto

declare reverse_loop.simps [simp del]

text \<open>
  The whole function. \<open>i0\<close> is the value the counter of the allocation loop starts from.
  The result holds the returned score, the two match strings and the table as the calls
  of \<open>get_penalty\<close> leave it (the table is passed by reference).
\<close>

definition local_alignment ::
  "int \<Rightarrow> string \<Rightarrow> string \<Rightarrow> penalty_map
     \<Rightarrow> (fault + (int \<times> string \<times> string \<times> penalty_map)) option" where
  "local_alignment i0 string1 string2 bpa =
     (let n = int (length string1);
          m = int (length string2);
          d = replicate (nat (n + 1)) None;
          b = replicate (nat (n + 1)) None
      in case alloc_loop i0 n m d b of
           Inl e \<Rightarrow> Some (Inl e)
         | Inr (d1, b1) \<Rightarrow>
      (case init_loop 0 n m d1 b1 of
           Inl e \<Rightarrow> Some (Inl e)
         | Inr (d2, b2) \<Rightarrow>
      (case fill_loop string1 string2 1 n m d2 b2 bpa of
           Inl e \<Rightarrow> Some (Inl e)
         | Inr (d3, b3, bpa3) \<Rightarrow>
      (case best_loop d3 n m 1 0 0 of
           Inl e \<Rightarrow> Some (Inl e)
         | Inr (best_score, best_j) \<Rightarrow>
      (case trace_loop string1 string2 b3 n best_j [] [] of
           None \<Rightarrow> None
         | Some (Inl e) \<Rightarrow> Some (Inl e)
         | Some (Inr (m1, m2)) \<Rightarrow>
             Some (Inr (best_score,
                        reverse_loop m1 (int (length m1) - 1) [],
                        reverse_loop m2 (int (length m2) - 1) [],
                        bpa3)))))))"

subsection \<open>Tables and matrices for the statements\<close>

text \<open>
  A table is filled by calls of \<open>set_penalty\<close>, one after the other (as
  \<open>load_blosum_file\<close> does), starting from the empty map of a new \<open>BlosumPenaltyArray\<close>.
\<close>

definition set_all :: "(char \<times> char \<times> int) list \<Rightarrow> penalty_map \<Rightarrow> penalty_map" where
  "set_all entries pm = foldl (\<lambda>t (c1, c2, p). set_penalty c1 c2 p t) pm entries"

text \<open>Match 1, mismatch and gap -1, over the symbols A, B and the gap marker.\<close>

definition unit_scores :: penalty_map where
  "unit_scores = set_all
     [(CHR ''A'', CHR ''A'', 1), (CHR ''A'', CHR ''B'', - 1), (CHR ''A'', CHR ''*'', - 1),
      (CHR ''B'', CHR ''A'', - 1), (CHR ''B'', CHR ''B'', 1), (CHR ''B'', CHR ''*'', - 1),
      (CHR ''*'', CHR ''A'', - 1), (CHR ''*'', CHR ''B'', - 1), (CHR ''*'', CHR ''*'', - 1)]
     Map.empty"

definition symmetric_table :: "penalty_map \<Rightarrow> bool" where
  "symmetric_table pm = (\<forall>x y. penalty_of pm x y = penalty_of pm y x)"

text \<open>A matrix with every row allocated and every cell written.\<close>

definition cells :: "'a list list \<Rightarrow> 'a matrix" where
  "cells D = map (\<lambda>r. Some (map Some r)) D"

text \<open>
  A history of calls on a table: \<open>set_penalty\<close> and \<open>get_penalty\<close> in any order. \<open>last_set\<close>
  is the penalty of the most recent \<open>set_penalty\<close> for the pair, 0 when there is none;
  \<open>names_pair\<close> holds for a call of either kind on the pair.
\<close>

datatype table_call = Set_call char char int | Get_call char char

fun run_call :: "penalty_map \<Rightarrow> table_call \<Rightarrow> penalty_map" where
  "run_call pm (Set_call c1 c2 penalty) = set_penalty c1 c2 penalty pm"
| "run_call pm (Get_call c1 c2) = snd (get_penalty c1 c2 pm)"

definition run_calls :: "table_call list \<Rightarrow> penalty_map \<Rightarrow> penalty_map" where
  "run_calls calls pm = foldl run_call pm calls"

fun sets_pair :: "char \<Rightarrow> char \<Rightarrow> table_call \<Rightarrow> bool" where
  "sets_pair a b (Set_call c1 c2 penalty) = (c1 = a \<and> c2 = b)"
| "sets_pair a b (Get_call c1 c2) = False"

fun names_pair :: "char \<Rightarrow> char \<Rightarrow> table_call \<Rightarrow> bool" where
  "names_pair a b (Set_call c1 c2 penalty) = (c1 = a \<and> c2 = b)"
| "names_pair a b (Get_call c1 c2) = (c1 = a \<and> c2 = b)"

definition last_set :: "char \<Rightarrow> char \<Rightarrow> table_call list \<Rightarrow> int" where
  "last_set a b calls =
     (case find (sets_pair a b) (rev calls) of
        Some (Set_call c1 c2 penalty) \<Rightarrow> penalty
      | _ \<Rightarrow> 0)"

text \<open>
  A value fits an \<open>int\<close> of 32 bits; the cell \<open>(i, j)\<close> lies in an allocated row of the
  matrix.
\<close>

definition in_int :: "int \<Rightarrow> bool" where
  "in_int x = (- 2147483648 \<le> x \<and> x \<le> 2147483647)"

definition has_cell :: "'a matrix \<Rightarrow> int \<Rightarrow> int \<Rightarrow> bool" where
  "has_cell a i j =
     (0 \<le> i \<and> i < int (length a) \<and>
      (case a ! nat i of None \<Rightarrow> False | Some r \<Rightarrow> 0 \<le> j \<and> j < int (length r)))"

text \<open>Every row is allocated and has at least one cell.\<close>

definition rows_ready :: "'a matrix \<Rightarrow> bool" where
  "rows_ready a = list_all (\<lambda>r. case r of None \<Rightarrow> False | Some cs \<Rightarrow> cs \<noteq> []) a"

section \<open>Every call ends in a fault\<close>

text \<open>
  The allocation loop runs while \<open>i < n+2\<close> over arrays of \<open>n+1\<close> row pointers: a
  counter that starts below \<open>n+2\<close> reaches an index outside them (a negative one, or
  \<open>n+1\<close>). A counter that starts at \<open>n+2\<close> or above allocates no row at all.
\<close>

lemma set_row_Inr:
  "set_row a i m = Inr a' \<Longrightarrow> length a' = length a \<and> 0 \<le> i \<and> i < int (length a)"
  by (auto simp: set_row_def split: if_splits)

lemma alloc_loop_overrun:
  "i < n + 2 \<Longrightarrow> length d = nat (n + 1) \<Longrightarrow> alloc_loop i n m d b = Inl OutOfBounds"
proof (induction i n m d b rule: alloc_loop.induct)
  case (1 i n m d b)
  show ?case
  proof (cases "set_row d i m")
    case (Inl e)
    then have "e = OutOfBounds" by (auto simp: set_row_def split: if_splits)
    with Inl "1.prems" show ?thesis by (simp add: alloc_loop.simps [of i n m d b])
  next
    case d1: (Inr d1)
    note len = set_row_Inr [OF d1]
    show ?thesis
    proof (cases "set_row b i m")
      case (Inl e)
      then have "e = OutOfBounds" by (auto simp: set_row_def split: if_splits)
      with Inl d1 "1.prems" show ?thesis by (simp add: alloc_loop.simps [of i n m d b])
    next
      case b1: (Inr b1)
      from len "1.prems" have "i + 1 < n + 2" "length d1 = nat (n + 1)" by auto
      from "1.IH" [OF "1.prems"(1) d1 b1 this]
      show ?thesis using d1 b1 "1.prems" by (simp add: alloc_loop.simps [of i n m d b])
    qed
  qed
qed

lemma alloc_loop_skip: "\<not> i < n + 2 \<Longrightarrow> alloc_loop i n m d b = Inr (d, b)"
  by (simp add: alloc_loop.simps [of i n m d b])

text \<open>
  An inner loop that is entered does not end by its test: \<open>j\<close> never changes, and \<open>i\<close>
  grows until an access faults.
\<close>

lemma init_inner_no_exit:
  "j < m + 1 \<Longrightarrow> \<exists>e. init_inner i j m d b = Inl e"
proof (induction i j m d b rule: init_inner.induct)
  case (1 i j m d b)
  then show ?case
    by (auto simp: init_inner.simps [of i j m d b] split: sum.splits)
qed

lemma fill_inner_no_exit:
  "j < m + 1 \<Longrightarrow> \<exists>e. fill_inner string1 string2 i j m d b bpa = Inl e"
proof (induction string1 string2 i j m d b bpa rule: fill_inner.induct)
  case (1 string1 string2 i j m d b bpa)
  then show ?case
    by (auto simp: fill_inner.simps [of string1 string2 i j m d b bpa] split: sum.splits)
qed

lemma init_loop_no_exit:
  "0 \<le> n \<Longrightarrow> 0 \<le> m \<Longrightarrow> \<exists>e. init_loop 0 n m d b = Inl e"
  using init_inner_no_exit [of 0 m 0 d b]
  by (auto simp: init_loop.simps [of 0 n m d b])

lemma fill_loop_no_exit:
  "1 \<le> n \<Longrightarrow> 1 \<le> m \<Longrightarrow> \<exists>e. fill_loop string1 string2 1 n m d b bpa = Inl e"
  using fill_inner_no_exit [of 1 m string1 string2 1 d b bpa]
  by (auto simp: fill_loop.simps [of string1 string2 1 n m d b bpa])

text \<open>
  With every row allocated, as a correct allocation would leave the matrices, the
  initialisation loop still runs past the last row.
\<close>

lemma wr_rows_ready:
  assumes "rows_ready a" and "0 \<le> i" and "i < int (length a)"
  shows "\<exists>a'. wr a i 0 v = Inr a' \<and> rows_ready a' \<and> length a' = length a"
proof -
  from assms have k: "nat i < length a" by simp
  with assms(1) have "case a ! nat i of None \<Rightarrow> False | Some cs \<Rightarrow> cs \<noteq> []"
    by (simp add: rows_ready_def list_all_length)
  then obtain cs where cs: "a ! nat i = Some cs" "cs \<noteq> []"
    by (cases "a ! nat i") auto
  with assms have w: "wr a i 0 v = Inr (a[nat i := Some (cs[0 := Some v])])"
    by (simp add: wr_def)
  from assms(1) cs k have "rows_ready (a[nat i := Some (cs[0 := Some v])])"
    by (auto simp: rows_ready_def list_all_length nth_list_update)
  with w show ?thesis by simp
qed

lemma init_inner_overrun:
  "rows_ready d \<Longrightarrow> rows_ready b \<Longrightarrow> length b = length d \<Longrightarrow> 0 \<le> i \<Longrightarrow> 0 \<le> m \<Longrightarrow>
   init_inner i 0 m d b = Inl OutOfBounds"
proof (induction i "0::int" m d b rule: init_inner.induct)
  case (1 i m d b)
  show ?case
  proof (cases "i < int (length d)")
    case True
    from wr_rows_ready [OF "1.prems"(1,4) True, of 0] obtain d1 where
      d1: "wr d i 0 0 = Inr d1" "rows_ready d1" "length d1 = length d" by blast
    from True "1.prems" have "i < int (length b)" by simp
    from wr_rows_ready [OF "1.prems"(2,4) this, of "CHR ''?''"] obtain b1 where
      b1: "wr b i 0 (CHR ''?'') = Inr b1" "rows_ready b1" "length b1 = length b" by blast
    from "1.prems" have m: "0 < m + 1" by simp
    from "1.hyps" [OF m d1(1) b1(1) d1(2) b1(2)] b1 d1 "1.prems"
    have "init_inner (i + 1) 0 m d1 b1 = Inl OutOfBounds" by simp
    with d1 b1 m show ?thesis by (simp add: init_inner.simps [of i 0 m d b])
  next
    case False
    with "1.prems" have "wr d i 0 0 = Inl OutOfBounds" by (simp add: wr_def)
    with "1.prems" show ?thesis by (simp add: init_inner.simps [of i 0 m d b])
  qed
qed

lemma init_loop_overrun:
  "0 \<le> n \<Longrightarrow> 0 \<le> m \<Longrightarrow>
   init_loop 0 n m (replicate (nat (n + 1)) (Some (replicate (nat (m + 1)) None)))
     (replicate (nat (n + 1)) (Some (replicate (nat (m + 1)) None))) = Inl OutOfBounds"
  by (simp add: init_loop.simps [of 0] init_inner_overrun rows_ready_def list_all_length)

lemma init_loop_unallocated:
  "0 \<le> n \<Longrightarrow> 0 \<le> m \<Longrightarrow>
   init_loop 0 n m (replicate (nat (n + 1)) None) b = Inl UninitRead"
  by (simp add: init_loop.simps [of 0] init_inner.simps [of 0 0] wr_def)

lemma local_alignment_fault:
  "local_alignment i0 string1 string2 bpa =
     Some (Inl (if i0 < int (length string1) + 2 then OutOfBounds else UninitRead))"
  by (simp add: local_alignment_def Let_def alloc_loop_overrun alloc_loop_skip
      init_loop_unallocated)

text \<open>
  C2. For every start value of the allocation counter, every pair of sequences and every
  table, the call of \<open>local_alignment\<close> ends in a fault: it produces no score and no match
  strings.
\<close>

theorem local_alignment_no_result:
  "\<exists>e. local_alignment i0 string1 string2 bpa = Some (Inl e)"
  by (simp add: local_alignment_fault)

text \<open>
  C5. With an empty first or an empty second sequence the call ends in a fault as well:
  it does not return the score 0 and two empty strings.
\<close>

theorem local_alignment_empty_sequence:
  "local_alignment i0 [] string2 bpa = Some (Inl (if i0 < 2 then OutOfBounds else UninitRead))
   \<and> (\<exists>e. local_alignment i0 string1 [] bpa = Some (Inl e))"
  by (simp add: local_alignment_fault)

text \<open>
  C6. No call returns a score, whatever the start value of the allocation counter, the
  sequences and the table: in particular none returns a score that is at least 0.
\<close>

theorem local_alignment_no_score:
  "local_alignment i0 string1 string2 bpa \<noteq> Some (Inr (score, m1, m2, bpa'))"
  by (simp add: local_alignment_fault)

section \<open>The penalty table\<close>

lemma penalty_of_set_penalty:
  "penalty_of (set_penalty c1 c2 p pm) a b =
     (if a = c1 \<and> b = c2 then p else penalty_of pm a b)"
  by (simp add: set_penalty_def penalty_of_def inner_map_def)

lemma penalty_of_empty: "penalty_of Map.empty a b = 0"
  by (simp add: penalty_of_def inner_map_def)

lemma get_penalty_has_entry:
  "has_entry pm c1 c2 \<Longrightarrow> get_penalty c1 c2 pm = (penalty_of pm c1 c2, pm)"
  by (auto simp: get_penalty_def has_entry_def penalty_of_def inner_map_def map_upd_triv
      split: option.splits)

lemma has_entry_get_penalty: "has_entry (snd (get_penalty c1 c2 pm)) c1 c2"
  by (simp add: get_penalty_def has_entry_def)

lemma after_lookups_has_entry:
  "has_entry pm c1 (CHR ''*'') \<Longrightarrow> has_entry pm (CHR ''*'') c2 \<Longrightarrow> has_entry pm c1 c2 \<Longrightarrow>
   after_lookups pm c1 c2 = pm"
  by (simp add: after_lookups_def get_penalty_has_entry)

lemma unit_scores_penalty:
  "penalty_of unit_scores x y =
     (if x \<in> {CHR ''A'', CHR ''B'', CHR ''*''} \<and> y \<in> {CHR ''A'', CHR ''B'', CHR ''*''}
      then (if x = y \<and> x \<noteq> CHR ''*'' then 1 else - 1) else 0)"
  by (simp add: unit_scores_def set_all_def set_penalty_def penalty_of_def inner_map_def)

lemma unit_scores_entry:
  "has_entry unit_scores x y \<longleftrightarrow>
     x \<in> {CHR ''A'', CHR ''B'', CHR ''*''} \<and> y \<in> {CHR ''A'', CHR ''B'', CHR ''*''}"
  by (simp add: unit_scores_def set_all_def set_penalty_def has_entry_def inner_map_def)

lemma unit_scores_symmetric: "symmetric_table unit_scores"
  by (simp add: symmetric_table_def unit_scores_penalty)

text \<open>
  C4, as the claim states it, fails: \<open>get_penalty\<close> on a new, empty table returns 0 for
  the pair (A, B), which was never set. The function has no way to fail.
\<close>

theorem get_penalty_unset_counterexample:
  "fst (get_penalty (CHR ''A'') (CHR ''B'') Map.empty) = 0"
  by (simp add: get_penalty_def penalty_of_empty)

lemma has_entry_get_penalty_iff:
  "has_entry (snd (get_penalty c1 c2 pm)) x y = (has_entry pm x y \<or> (x = c1 \<and> y = c2))"
  by (auto simp: get_penalty_def has_entry_def inner_map_def split: option.splits)

lemma has_entry_set_penalty_iff:
  "has_entry (set_penalty c1 c2 p pm) x y = (has_entry pm x y \<or> (x = c1 \<and> y = c2))"
  by (auto simp: set_penalty_def has_entry_def inner_map_def split: option.splits)

lemma penalty_of_no_entry: "\<not> has_entry pm x y \<Longrightarrow> penalty_of pm x y = 0"
  by (auto simp: has_entry_def penalty_of_def inner_map_def split: option.splits)

lemma has_entry_empty: "\<not> has_entry Map.empty x y"
  by (simp add: has_entry_def)

lemma run_calls_snoc: "run_calls (calls @ [c]) pm = run_call (run_calls calls pm) c"
  by (simp add: run_calls_def)

lemma penalty_of_run_calls:
  "penalty_of (run_calls calls Map.empty) a b = last_set a b calls"
proof (induction calls rule: rev_induct)
  case Nil
  show ?case by (simp add: run_calls_def last_set_def penalty_of_empty)
next
  case (snoc c calls)
  then show ?case
    by (cases c)
      (auto simp: run_calls_snoc last_set_def penalty_of_set_penalty penalty_of_get_penalty)
qed

lemma has_entry_run_calls:
  "has_entry (run_calls calls Map.empty) a b = list_ex (names_pair a b) calls"
proof (induction calls rule: rev_induct)
  case Nil
  show ?case by (simp add: run_calls_def has_entry_empty)
next
  case (snoc c calls)
  then show ?case
    by (cases c)
      (auto simp: run_calls_snoc has_entry_set_penalty_iff has_entry_get_penalty_iff)
qed

text \<open>
  C4, amended. After any sequence of calls of \<open>set_penalty\<close> and \<open>get_penalty\<close> on a new
  table, \<open>get_penalty a b\<close> returns the penalty of the most recent \<open>set_penalty\<close> for the
  pair \<open>(a, b)\<close>, and 0 when there was none. The pair has an entry before the call exactly
  when an earlier call of either kind named it; after the call it has one, no other pair
  gains or loses its entry, and every later lookup returns what it would have returned
  before (so a pair that was never set is entered with the value 0).
\<close>

theorem get_penalty_after_calls:
  "fst (get_penalty a b (run_calls calls Map.empty)) = last_set a b calls
   \<and> has_entry (run_calls calls Map.empty) a b = list_ex (names_pair a b) calls
   \<and> has_entry (snd (get_penalty a b (run_calls calls Map.empty))) x y =
       (has_entry (run_calls calls Map.empty) x y \<or> (x = a \<and> y = b))
   \<and> fst (get_penalty x y (snd (get_penalty a b (run_calls calls Map.empty)))) =
       fst (get_penalty x y (run_calls calls Map.empty))"
  by (simp add: fst_get_penalty penalty_of_run_calls has_entry_run_calls
      has_entry_get_penalty_iff penalty_of_get_penalty)

section \<open>The fill step\<close>


lemma choose_dir_fst:
  "fst (choose_dir up left diag) =
     (if up \<le> diag \<and> left \<le> diag then CHR ''d''
      else if up < left then CHR ''l'' else CHR ''u'')"
  by (auto simp: choose_dir_def)

lemma choose_dir_snd: "snd (choose_dir up left diag) = max (max up left) diag"
  by (auto simp: choose_dir_def)

text \<open>
  Single fill steps on the sequences AB and A (in both orders) and on B and A, over
  matrices that hold 0 and the mark \<open>?\<close> everywhere at the start.
\<close>

lemmas fill_cell_eval =
  fill_cell_def bnd_def rd_def wr_def str_at_def cells_def add_int_def choose_dir_def
  get_penalty_has_entry unit_scores_entry unit_scores_penalty

lemma fill_AB_A_1_1:
  "fill_cell ''AB'' ''A'' 1 1 (cells [[0, 0], [0, 0], [0, 0]]) (cells [''??'', ''??'', ''??''])
     unit_scores =
   Inr (cells [[0, 0], [0, 1], [0, 0]], cells [''??'', ''?d'', ''??''], unit_scores)"
  by (simp add: fill_cell_eval)

lemma fill_AB_A_2_1:
  "fill_cell ''AB'' ''A'' 2 1 (cells [[0, 0], [0, 1], [0, 0]]) (cells [''??'', ''?d'', ''??''])
     unit_scores =
   Inr (cells [[0, 0], [0, 1], [0, 0]], cells [''??'', ''?d'', ''?u''], unit_scores)"
  by (simp add: fill_cell_eval)

lemma fill_A_AB_1_1:
  "fill_cell ''A'' ''AB'' 1 1 (cells [[0, 0, 0], [0, 0, 0]]) (cells [''???'', ''???''])
     unit_scores =
   Inr (cells [[0, 0, 0], [0, 1, 0]], cells [''???'', ''?d?''], unit_scores)"
  by (simp add: fill_cell_eval)

lemma fill_A_AB_1_2:
  "fill_cell ''A'' ''AB'' 1 2 (cells [[0, 0, 0], [0, 1, 0]]) (cells [''???'', ''?d?''])
     unit_scores =
   Inr (cells [[0, 0, 0], [0, 1, 0]], cells [''???'', ''?dl''], unit_scores)"
  by (simp add: fill_cell_eval)

lemma fill_B_A_1_1:
  "fill_cell ''B'' ''A'' 1 1 (cells [[0, 0], [0, 0]]) (cells [''??'', ''??'']) unit_scores =
   Inr (cells [[0, 0], [0, 0]], cells [''??'', ''?d''], unit_scores)"
  by (simp add: fill_cell_eval)

text \<open>When a fill step completes.\<close>

lemma wr_has_cell: "(\<exists>a'. wr a i j v = Inr a') = has_cell a i j"
  by (auto simp: wr_def has_cell_def split: option.splits)

lemma add_int_in_int: "add_int x y = (if in_int (x + y) then Inr (x + y) else Inl SignedOverflow)"
  by (simp add: add_int_def in_int_def)

lemma fill_cell_InrI:
  assumes "rd d (i - 1) j = Inr x1" and "rd d i (j - 1) = Inr x2"
    and "rd d (i - 1) (j - 1) = Inr x3"
    and "str_at string1 (i - 1) = Inr c1" and "str_at string2 (j - 1) = Inr c2"
    and "in_int (x1 + penalty_of bpa c1 (CHR ''*''))"
    and "in_int (x2 + penalty_of bpa (CHR ''*'') c2)"
    and "in_int (x3 + penalty_of bpa c1 c2)"
    and "has_cell d i j" and "has_cell b i j"
  shows "\<exists>d' b'. fill_cell string1 string2 i j d b bpa =
           Inr (d', b', after_lookups bpa c1 c2)"
proof -
  let ?up = "x1 + penalty_of bpa c1 (CHR ''*'')"
  let ?left = "x2 + penalty_of bpa (CHR ''*'') c2"
  let ?diag = "x3 + penalty_of bpa c1 c2"
  let ?t = "fst (choose_dir ?up ?left ?diag)"
  let ?v = "snd (choose_dir ?up ?left ?diag)"
  from assms(10) obtain b1 where b1: "wr b i j ?t = Inr b1"
    using wr_has_cell [of b i j ?t] by blast
  from assms(9) obtain d1 where d1: "wr d i j ?v = Inr d1"
    using wr_has_cell [of d i j ?v] by blast
  from assms(9) obtain d2 where d2: "wr d i j 0 = Inr d2"
    using wr_has_cell [of d i j 0] by blast
  from d1 d2 have d12: "wr d1 i j 0 = Inr d2" by (simp add: wr_wr)
  from d1 have r: "rd d1 i j = Inr ?v" by (rule rd_wr_same)
  show ?thesis
    using assms(1-8) b1 d1 d12 r
    by (simp add: fill_cell_def bnd_def case_prod_beta fst_get_penalty penalty_of_get_penalty
        add_int_in_int after_lookups_def)
qed

lemma fill_cell_Inr_conditions:
  assumes "fill_cell string1 string2 i j d b bpa = Inr (d', b', bpa')"
    and "rd d (i - 1) j = Inr x1" and "rd d i (j - 1) = Inr x2"
    and "rd d (i - 1) (j - 1) = Inr x3"
    and "str_at string1 (i - 1) = Inr c1" and "str_at string2 (j - 1) = Inr c2"
  shows "in_int (x1 + penalty_of bpa c1 (CHR ''*'')) \<and>
         in_int (x2 + penalty_of bpa (CHR ''*'') c2) \<and>
         in_int (x3 + penalty_of bpa c1 c2) \<and> has_cell d i j \<and> has_cell b i j"
  using fill_cell_InrD [OF assms(1)] assms(2-) wr_has_cell [of d i j] wr_has_cell [of b i j]
  by (auto simp: add_int_Inr in_int_def)

lemma unit_gap: 
  "penalty_of unit_scores (CHR ''A'') (CHR ''*'') = - 1"
  "penalty_of unit_scores (CHR ''B'') (CHR ''*'') = - 1"
  "penalty_of unit_scores (CHR ''*'') (CHR ''A'') = - 1"
  "penalty_of unit_scores (CHR ''*'') (CHR ''B'') = - 1"
  "penalty_of unit_scores (CHR ''A'') (CHR ''A'') = 1"
  "penalty_of unit_scores (CHR ''A'') (CHR ''B'') = - 1"
  "penalty_of unit_scores (CHR ''B'') (CHR ''A'') = - 1"
  by (simp_all add: unit_scores_penalty)

text \<open>
  C3, as the claim states it, fails. For B against A the three candidates of the cell
  (1, 1) are all -1, so the score stored is the floor 0; the tag stored is \<open>d\<close>, not the
  mark \<open>?\<close> of a cell without direction.
\<close>

theorem fill_cell_floor_counterexample:
  "fill_cell ''B'' ''A'' 1 1 (cells [[0, 0], [0, 0]]) (cells [''??'', ''??'']) unit_scores =
     Inr (cells [[0, 0], [0, 0]], cells [''??'', ''?d''], unit_scores)
   \<and> rd (cells [[0, 0], [0, 0::int]]) 1 1 = Inr 0
   \<and> rd (cells [''??'', ''?d'']) 1 1 = Inr (CHR ''d'')"
  using fill_B_A_1_1 by (simp add: rd_def cells_def)

text \<open>
  C3, amended. When the three predecessor cells and the two characters can be read, the
  fill step at the cell \<open>(i, j)\<close> completes exactly when the three candidates fit an \<open>int\<close>
  and the cell exists in \<open>d\<close> and in \<open>b\<close>. A step that completes stores in \<open>d[i][j]\<close> the
  largest of the three candidates and 0; it stores in \<open>b[i][j]\<close> the tag \<open>d\<close> when the
  diagonal candidate is at least as large as the other two, otherwise \<open>l\<close> when the left
  candidate is strictly larger than the up candidate, otherwise \<open>u\<close>, and so never the mark
  \<open>?\<close>, also when the score is the floor 0; it leaves every other cell of \<open>d\<close> and \<open>b\<close> as
  it was.
\<close>

theorem fill_cell_recurrence:
  assumes "rd d (i - 1) j = Inr x1" and "rd d i (j - 1) = Inr x2"
    and "rd d (i - 1) (j - 1) = Inr x3"
    and "str_at string1 (i - 1) = Inr c1" and "str_at string2 (j - 1) = Inr c2"
    and "up = x1 + penalty_of bpa c1 (CHR ''*'')"
    and "left = x2 + penalty_of bpa (CHR ''*'') c2"
    and "diag = x3 + penalty_of bpa c1 c2"
  shows "((\<exists>d' b' bpa'. fill_cell string1 string2 i j d b bpa = Inr (d', b', bpa')) =
            (in_int up \<and> in_int left \<and> in_int diag \<and> has_cell d i j \<and> has_cell b i j))
         \<and> (\<forall>d' b' bpa'. fill_cell string1 string2 i j d b bpa = Inr (d', b', bpa') \<longrightarrow>
               rd d' i j = Inr (max (max (max up left) diag) 0)
               \<and> rd b' i j =
                   Inr (if up \<le> diag \<and> left \<le> diag then CHR ''d''
                        else if up < left then CHR ''l'' else CHR ''u'')
               \<and> (\<exists>t. rd b' i j = Inr t \<and> t \<noteq> CHR ''?'')
               \<and> (\<forall>i' j'. (i', j') \<noteq> (i, j) \<longrightarrow>
                     rd d' i' j' = rd d i' j' \<and> rd b' i' j' = rd b i' j'))"
proof -
  have completes:
    "(\<exists>d' b' bpa'. fill_cell string1 string2 i j d b bpa = Inr (d', b', bpa')) =
       (in_int up \<and> in_int left \<and> in_int diag \<and> has_cell d i j \<and> has_cell b i j)"
  proof
    assume "\<exists>d' b' bpa'. fill_cell string1 string2 i j d b bpa = Inr (d', b', bpa')"
    then obtain d' b' bpa' where "fill_cell string1 string2 i j d b bpa = Inr (d', b', bpa')"
      by blast
    from fill_cell_Inr_conditions [OF this assms(1-5)] assms(6-8)
    show "in_int up \<and> in_int left \<and> in_int diag \<and> has_cell d i j \<and> has_cell b i j"
      by simp
  next
    assume "in_int up \<and> in_int left \<and> in_int diag \<and> has_cell d i j \<and> has_cell b i j"
    with fill_cell_InrI [OF assms(1-5), of bpa b] assms(6-8)
    show "\<exists>d' b' bpa'. fill_cell string1 string2 i j d b bpa = Inr (d', b', bpa')"
      by blast
  qed
  have stores:
    "rd d' i j = Inr (max (max (max up left) diag) 0)
     \<and> rd b' i j =
         Inr (if up \<le> diag \<and> left \<le> diag then CHR ''d''
              else if up < left then CHR ''l'' else CHR ''u'')
     \<and> (\<exists>t. rd b' i j = Inr t \<and> t \<noteq> CHR ''?'')
     \<and> (\<forall>i' j'. (i', j') \<noteq> (i, j) \<longrightarrow>
           rd d' i' j' = rd d i' j' \<and> rd b' i' j' = rd b i' j')"
    if c: "fill_cell string1 string2 i j d b bpa = Inr (d', b', bpa')" for d' b' bpa'
  proof -
    from fill_cell_InrD [OF c] assms
    have wb: "wr b i j (fst (choose_dir up left diag)) = Inr b'"
      and wd: "wr d i j (max (snd (choose_dir up left diag)) 0) = Inr d'"
      by (auto simp: add_int_Inr)
    from wd have v: "rd d' i j = Inr (max (max (max up left) diag) 0)"
      by (simp add: rd_wr_same choose_dir_snd)
    from wb have tag: "rd b' i j =
        Inr (if up \<le> diag \<and> left \<le> diag then CHR ''d''
             else if up < left then CHR ''l'' else CHR ''u'')"
      by (simp add: rd_wr_same choose_dir_fst)
    from tag have nq: "\<exists>t. rd b' i j = Inr t \<and> t \<noteq> CHR ''?''"
      by simp
    have fr: "rd d' i' j' = rd d i' j' \<and> rd b' i' j' = rd b i' j'"
      if "(i', j') \<noteq> (i, j)" for i' j'
      using wb wd that by (simp add: rd_wr_other)
    from v tag nq fr show ?thesis by blast
  qed
  from completes stores show ?thesis by blast
qed

theorem fill_cell_recurrence_witness:
  "fill_cell ''B'' ''A'' 1 1 (cells [[0, 0], [0, 0]]) (cells [''??'', ''??'']) unit_scores =
     Inr (cells [[0, 0], [0, 0]], cells [''??'', ''?d''], unit_scores)
   \<and> rd (cells [[0, 0], [0, 0::int]]) 1 1 = Inr 0
   \<and> rd (cells [''??'', ''?d'']) 1 1 = Inr (CHR ''d'')
   \<and> fill_cell ''AB'' ''A'' 1 1 (cells [[0, 0], [0, 0], [0, 0]]) (cells [''??'', ''??'', ''??''])
     unit_scores =
     Inr (cells [[0, 0], [0, 1], [0, 0]], cells [''??'', ''?d'', ''??''], unit_scores)
   \<and> rd (cells [[0, 0], [0, 1], [0, 0::int]]) 1 1 = Inr 1
   \<and> rd (cells [[0, 0], [0, 1], [0, 0::int]]) 2 1 = rd (cells [[0, 0], [0, 0], [0, 0::int]]) 2 1
   \<and> (\<exists>d' b' bpa'. fill_cell ''AB'' ''A'' 2 1 (cells [[0, 0], [0, 1], [0, 0]])
         (cells [''??'', ''?d'', ''??'']) unit_scores = Inr (d', b', bpa'))"
proof -
  have floor: "rd (cells [[0, 0], [0, 0::int]]) 1 1 = Inr 0
      \<and> rd (cells [''??'', ''?d'']) 1 1 = Inr (CHR ''d'')"
  proof -
    let ?d = "cells [[0, 0], [0::int, 0]]"
    have r: "rd ?d (1 - 1) 1 = Inr 0" "rd ?d 1 (1 - 1) = Inr 0" "rd ?d (1 - 1) (1 - 1) = Inr 0"
      by (simp_all add: rd_def cells_def)
    have s: "str_at ''B'' (1 - 1) = Inr (CHR ''B'')" "str_at ''A'' (1 - 1) = Inr (CHR ''A'')"
      by (simp_all add: str_at_def)
    have c: "- 1 = 0 + penalty_of unit_scores (CHR ''B'') (CHR ''*'')"
      "- 1 = 0 + penalty_of unit_scores (CHR ''*'') (CHR ''A'')"
      "- 1 = 0 + penalty_of unit_scores (CHR ''B'') (CHR ''A'')"
      by (simp_all add: unit_gap)
    from fill_cell_recurrence [OF r s c, THEN conjunct2, rule_format, OF fill_B_A_1_1]
    show ?thesis by simp
  qed
  have one: "rd (cells [[0, 0], [0, 1], [0, 0::int]]) 1 1 = Inr 1
      \<and> rd (cells [[0, 0], [0, 1], [0, 0::int]]) 2 1 =
          rd (cells [[0, 0], [0, 0], [0, 0::int]]) 2 1"
  proof -
    let ?d = "cells [[0, 0], [0, 0], [0::int, 0]]"
    have r: "rd ?d (1 - 1) 1 = Inr 0" "rd ?d 1 (1 - 1) = Inr 0" "rd ?d (1 - 1) (1 - 1) = Inr 0"
      by (simp_all add: rd_def cells_def)
    have s: "str_at ''AB'' (1 - 1) = Inr (CHR ''A'')" "str_at ''A'' (1 - 1) = Inr (CHR ''A'')"
      by (simp_all add: str_at_def)
    have c: "- 1 = 0 + penalty_of unit_scores (CHR ''A'') (CHR ''*'')"
      "- 1 = 0 + penalty_of unit_scores (CHR ''*'') (CHR ''A'')"
      "1 = 0 + penalty_of unit_scores (CHR ''A'') (CHR ''A'')"
      by (simp_all add: unit_gap)
    note w = fill_cell_recurrence [OF r s c, THEN conjunct2, rule_format, OF fill_AB_A_1_1]
    from w have "rd (cells [[0, 0], [0, 1], [0, 0::int]]) 1 1 = Inr 1"
      by simp
    moreover from w have "(2, 1) \<noteq> (1::int, 1::int) \<longrightarrow>
        rd (cells [[0, 0], [0, 1], [0, 0::int]]) 2 1 = rd ?d 2 1"
      by blast
    then have "rd (cells [[0, 0], [0, 1], [0, 0::int]]) 2 1 = rd ?d 2 1"
      by simp
    ultimately show ?thesis by simp
  qed
  have completes: "\<exists>d' b' bpa'. fill_cell ''AB'' ''A'' 2 1 (cells [[0, 0], [0, 1], [0, 0]])
         (cells [''??'', ''?d'', ''??'']) unit_scores = Inr (d', b', bpa')"
  proof -
    let ?d = "cells [[0, 0], [0, 1], [0::int, 0]]"
    let ?b = "cells [''??'', ''?d'', ''??'']"
    have r: "rd ?d (2 - 1) 1 = Inr 1" "rd ?d 2 (1 - 1) = Inr 0" "rd ?d (2 - 1) (1 - 1) = Inr 0"
      by (simp_all add: rd_def cells_def)
    have s: "str_at ''AB'' (2 - 1) = Inr (CHR ''B'')" "str_at ''A'' (1 - 1) = Inr (CHR ''A'')"
      by (simp_all add: str_at_def)
    have c: "0 = 1 + penalty_of unit_scores (CHR ''B'') (CHR ''*'')"
      "- 1 = 0 + penalty_of unit_scores (CHR ''*'') (CHR ''A'')"
      "- 1 = 0 + penalty_of unit_scores (CHR ''B'') (CHR ''A'')"
      by (simp_all add: unit_gap)
    have p: "in_int 0 \<and> in_int (- 1) \<and> in_int (- 1) \<and> has_cell ?d 2 1 \<and> has_cell ?b 2 1"
      by (simp add: in_int_def has_cell_def cells_def)
    from fill_cell_recurrence [OF r s c, THEN conjunct1] p
    show ?thesis by simp
  qed
  from floor one completes fill_B_A_1_1 fill_AB_A_1_1 show ?thesis by simp
qed

text \<open>
  C10. When the three predecessor cells and the two characters can be read, the candidates
  fit an \<open>int\<close> and the cell exists in \<open>d\<close> and in \<open>b\<close>, the fill step completes and records
  \<open>d\<close> whenever the diagonal candidate is at least as large as the other two, otherwise
  \<open>l\<close> when the left candidate is strictly larger than the up candidate, otherwise \<open>u\<close>;
  and every step that completes records that tag. The tag is a function of the three
  candidates.
\<close>

theorem fill_cell_tie_break:
  assumes "rd d (i - 1) j = Inr x1" and "rd d i (j - 1) = Inr x2"
    and "rd d (i - 1) (j - 1) = Inr x3"
    and "str_at string1 (i - 1) = Inr c1" and "str_at string2 (j - 1) = Inr c2"
    and "up = x1 + penalty_of bpa c1 (CHR ''*'')"
    and "left = x2 + penalty_of bpa (CHR ''*'') c2"
    and "diag = x3 + penalty_of bpa c1 c2"
  shows "(in_int up \<and> in_int left \<and> in_int diag \<and> has_cell d i j \<and> has_cell b i j \<longrightarrow>
           (\<exists>d' b'. fill_cell string1 string2 i j d b bpa =
                       Inr (d', b', after_lookups bpa c1 c2)
                   \<and> rd b' i j =
                       Inr (if up \<le> diag \<and> left \<le> diag then CHR ''d''
                            else if up < left then CHR ''l'' else CHR ''u'')))
         \<and> (fill_cell string1 string2 i j d b bpa = Inr (d', b', bpa') \<longrightarrow>
              rd b' i j =
                Inr (if up \<le> diag \<and> left \<le> diag then CHR ''d''
                     else if up < left then CHR ''l'' else CHR ''u''))"
proof -
  have tag: "rd b2 i j =
      Inr (if up \<le> diag \<and> left \<le> diag then CHR ''d''
           else if up < left then CHR ''l'' else CHR ''u'')"
    if "fill_cell string1 string2 i j d b bpa = Inr (d2, b2, bpa2)" for d2 b2 bpa2
    using fill_cell_InrD [OF that] assms
    by (auto simp: add_int_Inr choose_dir_fst dest!: rd_wr_same)
  show ?thesis
  proof (intro conjI impI)
    assume "in_int up \<and> in_int left \<and> in_int diag \<and> has_cell d i j \<and> has_cell b i j"
    with fill_cell_InrI [OF assms(1-5), of bpa b] assms(6-8)
    obtain d2 b2 where
      "fill_cell string1 string2 i j d b bpa = Inr (d2, b2, after_lookups bpa c1 c2)"
      by blast
    with tag [OF this]
    show "\<exists>d' b'. fill_cell string1 string2 i j d b bpa =
                       Inr (d', b', after_lookups bpa c1 c2)
                   \<and> rd b' i j =
                       Inr (if up \<le> diag \<and> left \<le> diag then CHR ''d''
                            else if up < left then CHR ''l'' else CHR ''u'')"
      by blast
  next
    assume "fill_cell string1 string2 i j d b bpa = Inr (d', b', bpa')"
    then show "rd b' i j =
        Inr (if up \<le> diag \<and> left \<le> diag then CHR ''d''
             else if up < left then CHR ''l'' else CHR ''u'')"
      by (rule tag)
  qed
qed

text \<open>
  The three branches: all candidates -1 (the tie goes to \<open>d\<close>), left 0 above up -1 and
  diagonal -1 (\<open>l\<close>), up 0 above left -1 and diagonal -1 (\<open>u\<close>).
\<close>

theorem fill_cell_tie_break_witness:
  "(\<exists>d' b'. fill_cell ''B'' ''A'' 1 1 (cells [[0, 0], [0, 0]]) (cells [''??'', ''??''])
               unit_scores = Inr (d', b', after_lookups unit_scores (CHR ''B'') (CHR ''A''))
            \<and> rd b' 1 1 = Inr (CHR ''d''))
   \<and> (\<exists>d' b'. fill_cell ''A'' ''AB'' 1 2 (cells [[0, 0, 0], [0, 1, 0]]) (cells [''???'', ''?d?''])
               unit_scores = Inr (d', b', after_lookups unit_scores (CHR ''A'') (CHR ''B''))
            \<and> rd b' 1 2 = Inr (CHR ''l''))
   \<and> (\<exists>d' b'. fill_cell ''AB'' ''A'' 2 1 (cells [[0, 0], [0, 1], [0, 0]])
               (cells [''??'', ''?d'', ''??'']) unit_scores =
               Inr (d', b', after_lookups unit_scores (CHR ''B'') (CHR ''A''))
            \<and> rd b' 2 1 = Inr (CHR ''u''))"
proof -
  have tie: "\<exists>d' b'. fill_cell ''B'' ''A'' 1 1 (cells [[0, 0], [0, 0]]) (cells [''??'', ''??''])
               unit_scores = Inr (d', b', after_lookups unit_scores (CHR ''B'') (CHR ''A''))
            \<and> rd b' 1 1 = Inr (CHR ''d'')"
  proof -
    let ?d = "cells [[0, 0], [0::int, 0]]"
    let ?b = "cells [''??'', ''??'']"
    have r: "rd ?d (1 - 1) 1 = Inr 0" "rd ?d 1 (1 - 1) = Inr 0" "rd ?d (1 - 1) (1 - 1) = Inr 0"
      by (simp_all add: rd_def cells_def)
    have s: "str_at ''B'' (1 - 1) = Inr (CHR ''B'')" "str_at ''A'' (1 - 1) = Inr (CHR ''A'')"
      by (simp_all add: str_at_def)
    have c: "- 1 = 0 + penalty_of unit_scores (CHR ''B'') (CHR ''*'')"
      "- 1 = 0 + penalty_of unit_scores (CHR ''*'') (CHR ''A'')"
      "- 1 = 0 + penalty_of unit_scores (CHR ''B'') (CHR ''A'')"
      by (simp_all add: unit_gap)
    have p: "in_int (- 1) \<and> in_int (- 1) \<and> in_int (- 1) \<and> has_cell ?d 1 1 \<and> has_cell ?b 1 1"
      by (simp add: in_int_def has_cell_def cells_def)
    from fill_cell_tie_break [OF r s c, THEN conjunct1, rule_format, OF p]
    show ?thesis by simp
  qed
  have left: "\<exists>d' b'. fill_cell ''A'' ''AB'' 1 2 (cells [[0, 0, 0], [0, 1, 0]])
               (cells [''???'', ''?d?'']) unit_scores =
               Inr (d', b', after_lookups unit_scores (CHR ''A'') (CHR ''B''))
            \<and> rd b' 1 2 = Inr (CHR ''l'')"
  proof -
    let ?d = "cells [[0, 0, 0], [0::int, 1, 0]]"
    let ?b = "cells [''???'', ''?d?'']"
    have r: "rd ?d (1 - 1) 2 = Inr 0" "rd ?d 1 (2 - 1) = Inr 1" "rd ?d (1 - 1) (2 - 1) = Inr 0"
      by (simp_all add: rd_def cells_def)
    have s: "str_at ''A'' (1 - 1) = Inr (CHR ''A'')" "str_at ''AB'' (2 - 1) = Inr (CHR ''B'')"
      by (simp_all add: str_at_def)
    have c: "- 1 = 0 + penalty_of unit_scores (CHR ''A'') (CHR ''*'')"
      "0 = 1 + penalty_of unit_scores (CHR ''*'') (CHR ''B'')"
      "- 1 = 0 + penalty_of unit_scores (CHR ''A'') (CHR ''B'')"
      by (simp_all add: unit_gap)
    have p: "in_int (- 1) \<and> in_int 0 \<and> in_int (- 1) \<and> has_cell ?d 1 2 \<and> has_cell ?b 1 2"
      by (simp add: in_int_def has_cell_def cells_def)
    from fill_cell_tie_break [OF r s c, THEN conjunct1, rule_format, OF p]
    show ?thesis by simp
  qed
  have up: "\<exists>d' b'. fill_cell ''AB'' ''A'' 2 1 (cells [[0, 0], [0, 1], [0, 0]])
               (cells [''??'', ''?d'', ''??'']) unit_scores =
               Inr (d', b', after_lookups unit_scores (CHR ''B'') (CHR ''A''))
            \<and> rd b' 2 1 = Inr (CHR ''u'')"
  proof -
    let ?d = "cells [[0, 0], [0, 1], [0::int, 0]]"
    let ?b = "cells [''??'', ''?d'', ''??'']"
    have r: "rd ?d (2 - 1) 1 = Inr 1" "rd ?d 2 (1 - 1) = Inr 0" "rd ?d (2 - 1) (1 - 1) = Inr 0"
      by (simp_all add: rd_def cells_def)
    have s: "str_at ''AB'' (2 - 1) = Inr (CHR ''B'')" "str_at ''A'' (1 - 1) = Inr (CHR ''A'')"
      by (simp_all add: str_at_def)
    have c: "0 = 1 + penalty_of unit_scores (CHR ''B'') (CHR ''*'')"
      "- 1 = 0 + penalty_of unit_scores (CHR ''*'') (CHR ''A'')"
      "- 1 = 0 + penalty_of unit_scores (CHR ''B'') (CHR ''A'')"
      by (simp_all add: unit_gap)
    have p: "in_int 0 \<and> in_int (- 1) \<and> in_int (- 1) \<and> has_cell ?d 2 1 \<and> has_cell ?b 2 1"
      by (simp add: in_int_def has_cell_def cells_def)
    from fill_cell_tie_break [OF r s c, THEN conjunct1, rule_format, OF p]
    show ?thesis by simp
  qed
  from tie left up show ?thesis by blast
qed

section \<open>The table during the fill step\<close>


text \<open>
  C9, as the claim states it, fails. A lookup of a pair without entry changes the table:
  on a new, empty table the lookup of (A, gap) leaves an entry for that pair, and the
  fill step of the cell (1, 1) for A against A ends with a table that has entries.
\<close>

theorem lookup_inserts_counterexample:
  "\<not> has_entry Map.empty (CHR ''A'') (CHR ''*'')
   \<and> has_entry (snd (get_penalty (CHR ''A'') (CHR ''*'') Map.empty)) (CHR ''A'') (CHR ''*'')
   \<and> snd (get_penalty (CHR ''A'') (CHR ''*'') Map.empty) \<noteq> Map.empty
   \<and> fill_cell ''A'' ''A'' 1 1 (cells [[0, 0], [0, 0]]) (cells [''??'', ''??'']) Map.empty =
       Inr (cells [[0, 0], [0, 0]], cells [''??'', ''?d''],
            after_lookups Map.empty (CHR ''A'') (CHR ''A''))
   \<and> after_lookups Map.empty (CHR ''A'') (CHR ''A'') \<noteq> Map.empty"
proof -
  have "fill_cell ''A'' ''A'' 1 1 (cells [[0, 0], [0, 0]]) (cells [''??'', ''??'']) Map.empty =
       Inr (cells [[0, 0], [0, 0]], cells [''??'', ''?d''],
            after_lookups Map.empty (CHR ''A'') (CHR ''A''))"
    by (simp add: fill_cell_def bnd_def rd_def wr_def str_at_def cells_def add_int_def
        choose_dir_def case_prod_beta fst_get_penalty penalty_of_get_penalty penalty_of_empty
        after_lookups_def)
  moreover have "after_lookups Map.empty (CHR ''A'') (CHR ''A'') \<noteq> Map.empty"
    by (simp add: after_lookups_def get_penalty_def)
  moreover have "snd (get_penalty (CHR ''A'') (CHR ''*'') Map.empty) \<noteq> Map.empty"
    by (simp add: get_penalty_def)
  ultimately show ?thesis
    by (simp add: has_entry_get_penalty) (simp add: has_entry_def)
qed

text \<open>
  C9, amended. A lookup leaves the table as it was exactly when the pair has an entry.
  After a lookup the pair has an entry and no other pair gains or loses one; every later
  lookup returns what it would have returned before; a pair without entry is returned as
  0 and entered with the value 0. A fill step that completes adds entries for the three
  pairs it looks up and for no other pair, changes no value a lookup returns, and leaves
  the table as it was when the three pairs have entries.
\<close>

theorem lookups_keep_table:
  "(snd (get_penalty x y pm) = pm) = has_entry pm x y
   \<and> has_entry (snd (get_penalty x y pm)) x' y' = (has_entry pm x' y' \<or> (x' = x \<and> y' = y))
   \<and> fst (get_penalty x' y' (snd (get_penalty x y pm))) = fst (get_penalty x' y' pm)
   \<and> (\<not> has_entry pm x y \<longrightarrow>
        fst (get_penalty x y pm) = 0 \<and> fst (get_penalty x y (snd (get_penalty x y pm))) = 0)
   \<and> (fill_cell string1 string2 i j d b bpa = Inr (d', b', bpa') \<longrightarrow>
      str_at string1 (i - 1) = Inr c1 \<longrightarrow> str_at string2 (j - 1) = Inr c2 \<longrightarrow>
        has_entry bpa' x' y' =
          (has_entry bpa x' y' \<or> (x' = c1 \<and> y' = CHR ''*'') \<or> (x' = CHR ''*'' \<and> y' = c2)
           \<or> (x' = c1 \<and> y' = c2))
        \<and> fst (get_penalty x' y' bpa') = fst (get_penalty x' y' bpa)
        \<and> (has_entry bpa c1 (CHR ''*'') \<longrightarrow> has_entry bpa (CHR ''*'') c2 \<longrightarrow>
             has_entry bpa c1 c2 \<longrightarrow> bpa' = bpa))"
proof -
  have one: "(snd (get_penalty x y pm) = pm) = has_entry pm x y"
  proof
    assume "snd (get_penalty x y pm) = pm"
    with has_entry_get_penalty [of x y pm] show "has_entry pm x y" by simp
  next
    assume "has_entry pm x y"
    then show "snd (get_penalty x y pm) = pm" by (simp add: get_penalty_has_entry)
  qed
  have miss: "fst (get_penalty x y pm) = 0 \<and>
      fst (get_penalty x y (snd (get_penalty x y pm))) = 0" if "\<not> has_entry pm x y"
    using that by (simp add: fst_get_penalty penalty_of_get_penalty penalty_of_no_entry)
  have step: "has_entry bpa' x' y' =
          (has_entry bpa x' y' \<or> (x' = c1 \<and> y' = CHR ''*'') \<or> (x' = CHR ''*'' \<and> y' = c2)
           \<or> (x' = c1 \<and> y' = c2))
        \<and> fst (get_penalty x' y' bpa') = fst (get_penalty x' y' bpa)
        \<and> (has_entry bpa c1 (CHR ''*'') \<longrightarrow> has_entry bpa (CHR ''*'') c2 \<longrightarrow>
             has_entry bpa c1 c2 \<longrightarrow> bpa' = bpa)"
    if c: "fill_cell string1 string2 i j d b bpa = Inr (d', b', bpa')"
      and s: "str_at string1 (i - 1) = Inr c1" "str_at string2 (j - 1) = Inr c2"
  proof -
    from fill_cell_InrD [OF c] s have t: "bpa' = after_lookups bpa c1 c2" by auto
    show ?thesis
      unfolding t
      by (auto simp: after_lookups_has_entry)
         (auto simp: after_lookups_def has_entry_get_penalty_iff fst_get_penalty
            penalty_of_get_penalty)
  qed
  from one miss step show ?thesis
    by (simp add: has_entry_get_penalty_iff fst_get_penalty penalty_of_get_penalty)
qed

theorem lookups_keep_table_witness:
  "has_entry unit_scores (CHR ''A'') (CHR ''*'')
   \<and> snd (get_penalty (CHR ''A'') (CHR ''*'') unit_scores) = unit_scores
   \<and> \<not> has_entry Map.empty (CHR ''A'') (CHR ''*'')
   \<and> fst (get_penalty (CHR ''A'') (CHR ''*'') Map.empty) = 0
   \<and> has_entry (snd (get_penalty (CHR ''A'') (CHR ''*'') Map.empty)) (CHR ''A'') (CHR ''*'')
   \<and> fst (get_penalty (CHR ''A'') (CHR ''*'')
            (snd (get_penalty (CHR ''A'') (CHR ''*'') Map.empty))) = 0
   \<and> fill_cell ''AB'' ''A'' 1 1 (cells [[0, 0], [0, 0], [0, 0]]) (cells [''??'', ''??'', ''??''])
       unit_scores =
     Inr (cells [[0, 0], [0, 1], [0, 0]], cells [''??'', ''?d'', ''??''], unit_scores)"
proof -
  have e: "has_entry unit_scores (CHR ''A'') (CHR ''*'')"
    "has_entry unit_scores (CHR ''*'') (CHR ''A'')"
    "has_entry unit_scores (CHR ''A'') (CHR ''A'')"
    by (simp_all add: unit_scores_entry)
  have s: "str_at ''AB'' (1 - 1) = Inr (CHR ''A'')" "str_at ''A'' (1 - 1) = Inr (CHR ''A'')"
    by (simp_all add: str_at_def)
  have n: "\<not> has_entry Map.empty (CHR ''A'') (CHR ''*'')"
    by (simp add: has_entry_def)
  from lookups_keep_table [THEN conjunct1, of "CHR ''A''" "CHR ''*''" unit_scores] e(1)
  have kept: "snd (get_penalty (CHR ''A'') (CHR ''*'') unit_scores) = unit_scores"
    by simp
  note m = lookups_keep_table [of "CHR ''A''" "CHR ''*''" Map.empty "CHR ''A''" "CHR ''*''"]
  from m n have zero: "fst (get_penalty (CHR ''A'') (CHR ''*'') Map.empty) = 0
      \<and> fst (get_penalty (CHR ''A'') (CHR ''*'')
            (snd (get_penalty (CHR ''A'') (CHR ''*'') Map.empty))) = 0"
    by blast
  from m have ins:
    "has_entry (snd (get_penalty (CHR ''A'') (CHR ''*'') Map.empty)) (CHR ''A'') (CHR ''*'')"
    by blast
  from lookups_keep_table [THEN conjunct2, THEN conjunct2, THEN conjunct2, THEN conjunct2,
      rule_format, OF fill_AB_A_1_1 s]
  have "has_entry unit_scores (CHR ''A'') (CHR ''*'') \<longrightarrow>
      has_entry unit_scores (CHR ''*'') (CHR ''A'') \<longrightarrow>
      has_entry unit_scores (CHR ''A'') (CHR ''A'') \<longrightarrow> unit_scores = unit_scores"
    by blast
  with e kept n zero ins fill_AB_A_1_1 show ?thesis by simp
qed

section \<open>The search for the optimum\<close>

lemma rd_cells:
  "0 \<le> i \<Longrightarrow> nat i < length D \<Longrightarrow> 0 \<le> j \<Longrightarrow> nat j < length (D ! nat i) \<Longrightarrow>
   rd (cells D) i j = Inr (D ! nat i ! nat j)"
  by (auto simp: rd_def cells_def nat_less_iff)

lemma foldl_max_fold: "foldl max (b::int) xs = fold max xs b"
  by (induction xs arbitrary: b) (simp_all add: max.commute)

lemma foldl_max_Max: "foldl max (b::int) xs = Max (insert b (set xs))"
  using Max.set_eq_fold [of b xs] by (simp add: foldl_max_fold)

lemma best_loop_fold:
  assumes "0 \<le> best_i" and "nat best_i < length D"
    and "length (D ! nat best_i) = nat (m + 1)" and "0 \<le> j"
  shows "\<exists>bj. best_loop (cells D) best_i m j bs bj0 =
           Inr (foldl max bs (drop (nat j) (D ! nat best_i)), bj)"
  using assms
proof (induction "cells D" best_i m j bs bj0 rule: best_loop.induct)
  case (1 best_i m j best_score best_j)
  let ?row = "D ! nat best_i"
  show ?case
  proof (cases "j < m + 1")
    case True
    with "1.prems" have inb: "nat j < length ?row" by simp
    have "nat (j + 1) = Suc (nat j)" using "1.prems" by simp
    with Cons_nth_drop_Suc [OF inb]
    have dr: "drop (nat j) ?row = ?row ! nat j # drop (nat (j + 1)) ?row" by simp
    have r: "rd (cells D) best_i j = Inr (?row ! nat j)"
      using "1.prems" inb by (simp add: rd_cells)
    show ?thesis
    proof (cases "?row ! nat j > best_score")
      case gt: True
      from "1.hyps"(1) [OF True r gt] "1.prems"
      obtain bj where "best_loop (cells D) best_i m (j + 1) (?row ! nat j) j =
          Inr (foldl max (?row ! nat j) (drop (nat (j + 1)) ?row), bj)"
        by auto
      with True r gt dr show ?thesis
        by (simp add: best_loop.simps [of "cells D" best_i m j] max_def)
    next
      case le: False
      from "1.hyps"(2) [OF True r le] "1.prems"
      obtain bj where "best_loop (cells D) best_i m (j + 1) best_score best_j =
          Inr (foldl max best_score (drop (nat (j + 1)) ?row), bj)"
        by auto
      with True r le dr show ?thesis
        by (simp add: best_loop.simps [of "cells D" best_i m j] max_def)
    qed
  next
    case False
    with "1.prems" show ?thesis
      by (simp add: best_loop.simps [of "cells D" best_i m j])
  qed
qed

lemma best_loop_lower:
  "best_loop d best_i m j best_score best_j = Inr (s, bj) \<Longrightarrow> best_score \<le> s"
proof (induction d best_i m j best_score best_j rule: best_loop.induct)
  case (1 d best_i m j best_score best_j)
  then show ?case
    by (auto simp: best_loop.simps [of d best_i m j best_score best_j]
        split: if_splits sum.splits)
qed

lemma best_AB_A: "best_loop (cells [[0, 0], [0, 1], [0, 0]]) 2 1 1 0 0 = Inr (0, 0)"
  by (simp add: best_loop.simps rd_def cells_def)

lemma best_A_AB: "best_loop (cells [[0, 0, 0], [0, 1, 0]]) 1 2 1 0 0 = Inr (1, 1)"
  by (simp add: best_loop.simps rd_def cells_def)

text \<open>
  C1, as the claim states it, fails. For AB against A the two fill steps give a matrix
  whose largest entry is 1, in the cell (1, 1); the search reads the last row only and
  gives the score 0. (The call as a whole gives no score: it ends in a fault.)
\<close>

theorem best_loop_misses_maximum:
  "fill_cell ''AB'' ''A'' 1 1 (cells [[0, 0], [0, 0], [0, 0]]) (cells [''??'', ''??'', ''??''])
     unit_scores =
     Inr (cells [[0, 0], [0, 1], [0, 0]], cells [''??'', ''?d'', ''??''], unit_scores)
   \<and> fill_cell ''AB'' ''A'' 2 1 (cells [[0, 0], [0, 1], [0, 0]]) (cells [''??'', ''?d'', ''??''])
     unit_scores =
     Inr (cells [[0, 0], [0, 1], [0, 0]], cells [''??'', ''?d'', ''?u''], unit_scores)
   \<and> best_loop (cells [[0, 0], [0, 1], [0, 0]]) 2 1 1 0 0 = Inr (0, 0)
   \<and> Max (set (concat [[0, 0], [0, 1], [0, 0::int]])) = 1
   \<and> local_alignment 0 ''AB'' ''A'' unit_scores = Some (Inl OutOfBounds)"
  using fill_AB_A_1_1 fill_AB_A_2_1 best_AB_A
  by (simp add: local_alignment_fault)

text \<open>
  C1, amended. Over a matrix with \<open>n+1\<close> rows, all cells written, whose last row has
  \<open>m+1\<close> cells, the search gives the largest of 0 and the entries \<open>d[n][1]\<close> to
  \<open>d[n][m]\<close> of the last row.
\<close>

theorem best_loop_last_row:
  assumes "0 \<le> n" and "0 \<le> m" and "length D = nat (n + 1)"
    and "length (D ! nat n) = nat (m + 1)"
  shows "\<exists>best_j. best_loop (cells D) n m 1 0 0 =
           Inr (Max (insert 0 (set (tl (D ! nat n)))), best_j)"
  using best_loop_fold [of n D m 1 0 0] assms
  by (simp add: foldl_max_Max drop_Suc)

theorem best_loop_last_row_witness:
  "best_loop (cells [[0, 0], [0, 1], [0, 0]]) 2 1 1 0 0 = Inr (0, 0)
   \<and> Max (insert 0 (set (tl ([[0, 0], [0, 1], [0, 0::int]] ! nat 2)))) = 0"
proof -
  let ?D = "[[0, 0], [0, 1], [0, 0::int]]"
  have h: "(0::int) \<le> 2" "(0::int) \<le> 1" "length ?D = nat (2 + 1)"
    "length (?D ! nat 2) = nat (1 + 1)"
    by (simp_all add: numeral_2_eq_2)
  from best_loop_last_row [OF h] best_AB_A
  show ?thesis by (simp add: numeral_2_eq_2)
qed

section \<open>Exchanging the two sequences\<close>

text \<open>
  C8, as the claim states it, fails. The table \<open>unit_scores\<close> is symmetric. For AB against
  A the search over the filled matrix gives 0, for A against AB it gives 1. (Neither call
  gives a score as a whole: both end in a fault.)
\<close>

theorem score_asymmetric_counterexample:
  "symmetric_table unit_scores
   \<and> fill_cell ''AB'' ''A'' 1 1 (cells [[0, 0], [0, 0], [0, 0]]) (cells [''??'', ''??'', ''??''])
     unit_scores =
     Inr (cells [[0, 0], [0, 1], [0, 0]], cells [''??'', ''?d'', ''??''], unit_scores)
   \<and> fill_cell ''AB'' ''A'' 2 1 (cells [[0, 0], [0, 1], [0, 0]]) (cells [''??'', ''?d'', ''??''])
     unit_scores =
     Inr (cells [[0, 0], [0, 1], [0, 0]], cells [''??'', ''?d'', ''?u''], unit_scores)
   \<and> best_loop (cells [[0, 0], [0, 1], [0, 0]]) 2 1 1 0 0 = Inr (0, 0)
   \<and> fill_cell ''A'' ''AB'' 1 1 (cells [[0, 0, 0], [0, 0, 0]]) (cells [''???'', ''???''])
     unit_scores =
     Inr (cells [[0, 0, 0], [0, 1, 0]], cells [''???'', ''?d?''], unit_scores)
   \<and> fill_cell ''A'' ''AB'' 1 2 (cells [[0, 0, 0], [0, 1, 0]]) (cells [''???'', ''?d?''])
     unit_scores =
     Inr (cells [[0, 0, 0], [0, 1, 0]], cells [''???'', ''?dl''], unit_scores)
   \<and> best_loop (cells [[0, 0, 0], [0, 1, 0]]) 1 2 1 0 0 = Inr (1, 1)
   \<and> local_alignment 0 ''AB'' ''A'' unit_scores = Some (Inl OutOfBounds)
   \<and> local_alignment 0 ''A'' ''AB'' unit_scores = Some (Inl OutOfBounds)"
  using unit_scores_symmetric fill_AB_A_1_1 fill_AB_A_2_1 best_AB_A
    fill_A_AB_1_1 fill_A_AB_1_2 best_A_AB
  by (simp add: local_alignment_fault)

text \<open>
  C8, amended. For a symmetric table the value a fill step stores is symmetric: when the
  predecessors of the cell \<open>(i, j)\<close> for A against B hold what the predecessors of the
  cell \<open>(j, i)\<close> for B against A hold, the two steps store the same value.
\<close>

theorem fill_cell_symmetric:
  assumes "symmetric_table bpa"
    and "rd dA (i - 1) j = rd dB j (i - 1)" and "rd dA i (j - 1) = rd dB (j - 1) i"
    and "rd dA (i - 1) (j - 1) = rd dB (j - 1) (i - 1)"
    and A: "fill_cell seqA seqB i j dA bA bpa = Inr (dA', bA', bpaA)"
    and B: "fill_cell seqB seqA j i dB bB bpa = Inr (dB', bB', bpaB)"
  shows "rd dA' i j = rd dB' j i"
  using fill_cell_InrD [OF A] fill_cell_InrD [OF B] assms(1-4)
  apply (clarsimp simp: add_int_Inr choose_dir_snd symmetric_table_def)
  apply (drule rd_wr_same)+
  apply (simp add: max.commute max.left_commute)
  done

theorem fill_cell_symmetric_witness:
  "symmetric_table unit_scores
   \<and> rd (cells [[0, 0], [0, 1], [0, 0::int]]) 2 1 = rd (cells [[0, 0, 0], [0, 1, 0::int]]) 1 2"
proof -
  let ?dA = "cells [[0, 0], [0, 1], [0, 0::int]]"
  let ?dB = "cells [[0, 0, 0], [0, 1, 0::int]]"
  have r: "rd ?dA (2 - 1) 1 = rd ?dB 1 (2 - 1)" "rd ?dA 2 (1 - 1) = rd ?dB (1 - 1) 2"
    "rd ?dA (2 - 1) (1 - 1) = rd ?dB (1 - 1) (2 - 1)"
    by (simp_all add: rd_def cells_def)
  from fill_cell_symmetric [OF unit_scores_symmetric r fill_AB_A_2_1 fill_A_AB_1_2]
    unit_scores_symmetric
  show ?thesis by simp
qed

section \<open>The walk back and the reversal\<close>

text \<open>
  Each step of the walk appends one character to each match string, so a walk that ends
  keeps the two strings equally long; the reversal loop reverses its string.
\<close>

lemma trace_loop_lengths_aux:
  assumes "trace_loop string1 string2 b i j m1 m2 = Some y"
  shows "\<forall>r1 r2. y = Inr (r1, r2) \<longrightarrow> length m1 = length m2 \<longrightarrow> length r1 = length r2"
  by (rule trace_loop.raw_induct [OF _ assms]) (fastforce split: sum.splits if_splits)

lemma trace_loop_lengths:
  "trace_loop string1 string2 b i j m1 m2 = Some (Inr (r1, r2)) \<Longrightarrow>
   length m1 = length m2 \<Longrightarrow> length r1 = length r2"
  by (drule trace_loop_lengths_aux) auto

lemma reverse_loop_rev_aux:
  "x < int (length ms) \<Longrightarrow> reverse_loop ms x temp = temp @ rev (take (nat (x + 1)) ms)"
proof (induction ms x temp rule: reverse_loop.induct)
  case (1 ms x temp)
  show ?case
  proof (cases "x \<ge> 0")
    case True
    with "1.prems" have "nat x < length ms" by simp
    then have "take (Suc (nat x)) ms = take (nat x) ms @ [ms ! nat x]"
      by (rule take_Suc_conv_app_nth)
    moreover from True have "nat (x + 1) = Suc (nat x)" "nat (x - 1 + 1) = nat x" by simp_all
    ultimately show ?thesis
      using "1.IH" [OF True] "1.prems" True
      by (simp add: reverse_loop.simps [of ms x temp])
  next
    case False
    then show ?thesis by (simp add: reverse_loop.simps [of ms x temp])
  qed
qed

lemma reverse_loop_rev: "reverse_loop ms (int (length ms) - 1) [] = rev ms"
  using reverse_loop_rev_aux [of "int (length ms) - 1" ms "[]"] by simp

text \<open>
  C7. For A against A with the table \<open>unit_scores\<close> and the allocation counter starting
  at 0, the call ends in an access outside the arrays: it returns no match strings.
\<close>

theorem local_alignment_no_strings:
  "local_alignment 0 ''A'' ''A'' unit_scores = Some (Inl OutOfBounds)"
  by (simp add: local_alignment_fault)

end
